theory Spec2Isabelle
  imports Complex_Main
begin

section \<open>Python strings and paths\<close>

text \<open>
  A Python \<open>str\<close> is modelled as a \<open>string\<close> whose characters are the code points below
  256. \<open>str.lower\<close> changes exactly the capital letters among them: \<open>A\<close> to \<open>Z\<close> and the
  capital letters of the Latin-1 block (\<open>0xC0\<close> to \<open>0xDE\<close> without the multiplication
  sign \<open>0xD7\<close>); each moves up by 32.
\<close>

definition lower_char :: "char \<Rightarrow> char" where
  "lower_char c =
     (let n = (of_char c :: nat)
      in if (65 \<le> n \<and> n \<le> 90) \<or> (192 \<le> n \<and> n \<le> 222 \<and> n \<noteq> 215)
         then char_of (n + 32) else c)"

definition lower :: "string \<Rightarrow> string" where
  "lower s = map lower_char s"

definition lstrip :: "char \<Rightarrow> string \<Rightarrow> string" where
  \<comment> \<open>\<open>s.lstrip(c)\<close> for a one-character argument: every leading \<open>c\<close> goes\<close>
  "lstrip c s = dropWhile (\<lambda>x. x = c) s"

definition startswith :: "string \<Rightarrow> string \<Rightarrow> bool" where
  "startswith s p = (take (length p) s = p)"

definition endswith :: "string \<Rightarrow> string \<Rightarrow> bool" where
  "endswith s suf = (length suf \<le> length s \<and> drop (length s - length suf) s = suf)"

definition rsplit1 :: "char \<Rightarrow> string \<Rightarrow> string list" where
  \<comment> \<open>\<open>s.rsplit(c, 1)\<close>: cut at the last \<open>c\<close>, or the whole string when there is none\<close>
  "rsplit1 c s =
     (if c \<in> set s
      then [rev (tl (dropWhile (\<lambda>x. x \<noteq> c) (rev s))), rev (takeWhile (\<lambda>x. x \<noteq> c) (rev s))]
      else [s])"

definition path_join :: "string \<Rightarrow> string \<Rightarrow> string" where
  \<comment> \<open>\<open>os.path.join(a, b)\<close> of \<open>posixpath\<close>\<close>
  "path_join a b =
     (if startswith b ''/'' then b
      else if a = [] \<or> endswith a ''/'' then a @ b
      else a @ ''/'' @ b)"

definition isabs :: "string \<Rightarrow> bool" where
  \<comment> \<open>\<open>os.path.isabs\<close> of \<open>posixpath\<close>\<close>
  "isabs p = startswith p ''/''"

subsection \<open>Formatting\<close>

definition digit_char :: "nat \<Rightarrow> char" where
  "digit_char d = char_of (of_char CHR ''0'' + d)"

fun str_nat :: "nat \<Rightarrow> string" where
  "str_nat n = (if n < 10 then [digit_char n] else str_nat (n div 10) @ [digit_char (n mod 10)])"

declare str_nat.simps [simp del]

definition str_int :: "int \<Rightarrow> string" where
  \<comment> \<open>\<open>str(i)\<close>, as \<open>f"{i}"\<close> prints an \<open>int\<close>\<close>
  "str_int i = (if i < 0 then ''-'' @ str_nat (nat (- i)) else str_nat (nat i))"

definition hex_char :: "nat \<Rightarrow> char" where
  "hex_char d = (if d < 10 then digit_char d else char_of (of_char CHR ''a'' + (d - 10)))"

definition printable :: "char \<Rightarrow> bool" where
  \<comment> \<open>\<open>str.isprintable\<close> on a code point below 256\<close>
  "printable c =
     (let n = (of_char c :: nat)
      in \<not> (n < 32 \<or> (127 \<le> n \<and> n \<le> 160) \<or> n = 173))"

definition repr_char :: "char \<Rightarrow> char \<Rightarrow> string" where
  \<comment> \<open>one character inside \<open>repr\<close> of a \<open>str\<close> quoted with \<open>q\<close>\<close>
  "repr_char q c =
     (if c = CHR 0x5C \<or> c = q then [CHR 0x5C, c]
      else if c = CHR 0x09 then [CHR 0x5C, CHR ''t'']
      else if c = CHR 0x0A then [CHR 0x5C, CHR ''n'']
      else if c = CHR 0x0D then [CHR 0x5C, CHR ''r'']
      else if printable c then [c]
      else [CHR 0x5C, CHR ''x'', hex_char (of_char c div 16), hex_char (of_char c mod 16)])"

definition repr_str :: "string \<Rightarrow> string" where
  \<comment> \<open>\<open>repr(s)\<close>: single quotes, unless \<open>s\<close> has a single quote and no double quote\<close>
  "repr_str s =
     (let q = (if CHR 0x27 \<in> set s \<and> CHR 0x22 \<notin> set s then CHR 0x22 else CHR 0x27)
      in [q] @ concat (map (repr_char q) s) @ [q])"

fun join_comma :: "string list \<Rightarrow> string" where
  "join_comma [] = []"
| "join_comma [x] = x"
| "join_comma (x # y # ys) = x @ '', '' @ join_comma (y # ys)"

definition repr_list :: "string list \<Rightarrow> string" where
  \<comment> \<open>\<open>f"{xs}"\<close> for a list of \<open>str\<close>\<close>
  "repr_list xs = ''['' @ join_comma (map repr_str xs) @ '']''"

section \<open>Logger\<close>

text \<open>
  \<open>logger.py\<close> is the one module of the package that \<open>chrome_utils.py\<close> imports for its
  log and that is not part of the sources at hand; only its test and its callers are.
\<close>

record log_entry =
  timestamp :: nat
  func :: string
  message :: string
  is_error :: bool

type_synonym logger = "log_entry list"

datatype cell = Null | Instant nat | Str string | Bool bool

record dataframe =
  columns :: "string list"
  rows :: "cell list list"

definition Logger :: logger where
  \<comment> \<open>Modelled from the spec: \<open>Logger()\<close> of the missing \<open>logger.py\<close>, which owns an ordered
      sequence of entries, empty at first\<close>
  "Logger = []"

definition log :: "nat \<Rightarrow> string \<Rightarrow> string \<Rightarrow> bool \<Rightarrow> logger \<Rightarrow> logger" where
  \<comment> \<open>Modelled from the spec: \<open>Logger.log\<close> of the missing \<open>logger.py\<close>, which appends an
      entry with the current timestamp \<open>now\<close>, without validation\<close>
  "log now f m e lg =
     lg @ [\<lparr>timestamp = now, func = f, message = m, is_error = e\<rparr>]"

definition row_of :: "log_entry \<Rightarrow> cell list" where
  "row_of e = [Instant (timestamp e), Str (func e), Str (message e), Bool (is_error e)]"

definition get_log_dataframe :: "logger \<Rightarrow> dataframe" where
  \<comment> \<open>Modelled from the spec: \<open>Logger.get_log_dataframe\<close> of the missing \<open>logger.py\<close>, all
      entries as rows under the columns Date, Function, Message, IsError, in append order\<close>
  "get_log_dataframe lg =
     \<lparr>columns = [''Date'', ''Function'', ''Message'', ''IsError''], rows = map row_of lg\<rparr>"

section \<open>The operating system\<close>

text \<open>
  \<open>wait_download_file\<close> reaches the world through \<open>os\<close>, \<open>shutil\<close> and \<open>time\<close>. The
  world is a state of any type \<open>'w\<close>, and the library calls are the fields of an
  environment. A call that can raise \<open>OSError\<close> returns the text of the exception
  (\<open>Some e\<close>, or \<open>Inl e\<close>) beside the world it leaves behind. \<open>time_sleep\<close> is what the
  rest of the machine does to the world during one \<open>time.sleep(0.2)\<close>, and \<open>clock\<close> is the
  time that \<open>Logger.log\<close> reads.
\<close>

record 'w os_env =
  os_makedirs :: "string \<Rightarrow> 'w \<Rightarrow> string option \<times> 'w"
  os_path_isdir :: "string \<Rightarrow> 'w \<Rightarrow> bool"
  os_listdir :: "string \<Rightarrow> 'w \<Rightarrow> string + string list"
  os_path_isfile :: "string \<Rightarrow> 'w \<Rightarrow> bool"
  shutil_move :: "string \<Rightarrow> string \<Rightarrow> 'w \<Rightarrow> string option \<times> 'w"
  os_path_exists :: "string \<Rightarrow> 'w \<Rightarrow> bool"
  os_remove :: "string \<Rightarrow> 'w \<Rightarrow> string option \<times> 'w"
  time_sleep :: "'w \<Rightarrow> 'w"
  clock :: "'w \<Rightarrow> nat"

section \<open>wait\_download\_file\<close>

datatype error = ValueError string | OSError string | TimeoutError string

type_synonym 'w outcome = "(error + string list list) \<times> logger option \<times> 'w"

definition found_msg :: "string list \<Rightarrow> string" where
  "found_msg path_file_reports = ''Found downloaded files: '' @ repr_list path_file_reports"

definition moved_msg :: "string \<Rightarrow> string \<Rightarrow> string" where
  "moved_msg downloaded_file_path output_file_path =
     ''Moved file from '' @ downloaded_file_path @ '' to '' @ output_file_path"

definition move_failed_msg :: "string \<Rightarrow> string \<Rightarrow> string" where
  "move_failed_msg downloaded_file_path e =
     ''Failed to move file '' @ downloaded_file_path @ '': '' @ e"

definition removed_msg :: "string \<Rightarrow> string" where
  "removed_msg downloaded_file_path = ''Removed file: '' @ downloaded_file_path"

definition remove_failed_msg :: "string \<Rightarrow> string \<Rightarrow> string" where
  "remove_failed_msg downloaded_file_path e =
     ''Failed to remove file '' @ downloaded_file_path @ '': '' @ e"

definition timeout_msg :: "int \<Rightarrow> string" where
  "timeout_msg max_waiting_download =
     ''Timeout waiting for download after '' @ str_int max_waiting_download @ '' seconds''"

definition log_if :: "'w os_env \<Rightarrow> logger option \<Rightarrow> 'w \<Rightarrow> string \<Rightarrow> bool \<Rightarrow> logger option" where
  \<comment> \<open>\<open>if logger: logger.log("wait_download_file", m, is_error=e)\<close>\<close>
  "log_if env logger w m e = map_option (log (clock env w) ''wait_download_file'' m e) logger"

definition normalize_extension :: "string \<Rightarrow> string" where
  \<comment> \<open>\<open>extension.lstrip('.').lower()\<close>\<close>
  "normalize_extension extension = lower (lstrip CHR ''.'' extension)"

definition matching :: "'w os_env \<Rightarrow> string \<Rightarrow> string \<Rightarrow> 'w \<Rightarrow> string list \<Rightarrow> string list" where
  \<comment> \<open>the comprehension of one pass, over the names that \<open>os.listdir\<close> gave\<close>
  "matching env folder_to_check extension w names =
     filter (\<lambda>f. os_path_isfile env (path_join folder_to_check f) w
                  \<and> endswith (lower f) (''.'' @ extension)) names"

definition cleanup :: "'w os_env \<Rightarrow> string \<Rightarrow> logger option \<Rightarrow> 'w \<Rightarrow> logger option \<times> 'w" where
  \<comment> \<open>the second \<open>try\<close> of the loop body: the source is removed if it is still there\<close>
  "cleanup env downloaded_file_path logger w =
     (if os_path_exists env downloaded_file_path w
      then (case os_remove env downloaded_file_path w of
              (None, w') \<Rightarrow>
                (log_if env logger w' (removed_msg downloaded_file_path) False, w')
            | (Some e, w') \<Rightarrow>
                (log_if env logger w' (remove_failed_msg downloaded_file_path e) True, w'))
      else (logger, w))"

fun process_files ::
  "'w os_env \<Rightarrow> string \<Rightarrow> string \<Rightarrow> string option \<Rightarrow> string list
     \<Rightarrow> string list list \<Rightarrow> logger option \<Rightarrow> 'w \<Rightarrow> 'w outcome" where
  "process_files env folder_to_check folder_storage replace_filename [] output_file logger w =
     (Inr output_file, logger, w)"
| "process_files env folder_to_check folder_storage replace_filename (path_file_report # rest)
     output_file logger w =
     (let downloaded_file_path = path_join folder_to_check path_file_report
      in case rsplit1 CHR ''.'' (lower path_file_report) of
           [downloaded_file_name, downloaded_file_extension] \<Rightarrow>
             (let new_file_name =
                    (case replace_filename of
                       Some r \<Rightarrow> if r \<noteq> [] then r else downloaded_file_name
                     | None \<Rightarrow> downloaded_file_name);
                  output_file_path =
                    path_join folder_storage (new_file_name @ ''.'' @ downloaded_file_extension)
              in case shutil_move env downloaded_file_path output_file_path w of
                   (Some e, w') \<Rightarrow>
                     (Inl (OSError e),
                      log_if env logger w' (move_failed_msg downloaded_file_path e) True,
                      w')
                 | (None, w') \<Rightarrow>
                     (let moved = log_if env logger w'
                            (moved_msg downloaded_file_path output_file_path) False;
                          (logger', w'') = cleanup env downloaded_file_path moved w'
                      in process_files env folder_to_check folder_storage replace_filename rest
                           (output_file
                              @ [[new_file_name, output_file_path, downloaded_file_extension]])
                           logger' w''))
         | _ \<Rightarrow> (Inl (ValueError ''not enough values to unpack (expected 2, got 1)''), logger, w))"

text \<open>
  The loop adds the float \<open>0.2\<close> to \<open>waiting_time\<close> on each pass without a match and
  compares the sum with \<open>max_waiting_download\<close>. Here the sum is the exact rational, one
  fifth per pass; the rounding of the float sum is not part of the model.
\<close>

function wait_loop ::
  "'w os_env \<Rightarrow> string \<Rightarrow> string \<Rightarrow> string \<Rightarrow> string option \<Rightarrow> int
     \<Rightarrow> rat \<Rightarrow> logger option \<Rightarrow> 'w \<Rightarrow> 'w outcome" where
  "wait_loop env folder_to_check extension folder_storage replace_filename max_waiting_download
     waiting_time logger w =
     (case os_listdir env folder_to_check w of
        Inl e \<Rightarrow> (Inl (OSError e), logger, w)
      | Inr names \<Rightarrow>
          if matching env folder_to_check extension w names \<noteq> []
          then process_files env folder_to_check folder_storage replace_filename
                 (matching env folder_to_check extension w names) []
                 (log_if env logger w
                    (found_msg (matching env folder_to_check extension w names)) False)
                 w
          else if of_int max_waiting_download \<le> waiting_time + 1 / 5
          then (Inl (TimeoutError ''Timeout waiting for download''),
                log_if env logger w (timeout_msg max_waiting_download) True,
                w)
          else wait_loop env folder_to_check extension folder_storage replace_filename
                 max_waiting_download (waiting_time + 1 / 5) logger (time_sleep env w))"
  by pat_completeness auto
termination
proof (relation "measure (\<lambda>(env, folder_to_check, extension, folder_storage, replace_filename,
                           max_waiting_download, waiting_time, logger, w).
                           nat \<lceil>(of_int max_waiting_download - waiting_time) * 5\<rceil>)")
  show "wf (measure (\<lambda>(env :: 'w os_env, folder_to_check :: string, extension :: string,
                        folder_storage :: string, replace_filename :: string option,
                        max_waiting_download :: int, waiting_time :: rat,
                        logger :: logger option, w :: 'w).
                        nat \<lceil>(of_int max_waiting_download - waiting_time) * 5\<rceil>))"
    by simp
next
  fix env :: "'w os_env" and folder_to_check extension folder_storage :: string
    and replace_filename :: "string option" and max_waiting_download :: int
    and waiting_time :: rat and logger :: "logger option" and w :: 'w and names :: "string list"
  assume more: "\<not> of_int max_waiting_download \<le> waiting_time + 1 / 5"
  define d where "d = (of_int max_waiting_download - waiting_time) * 5"
  have gap: "1 < d"
    using more by (simp add: d_def field_simps)
  have step: "(of_int max_waiting_download - (waiting_time + 1 / 5)) * 5 = d - 1"
    by (simp add: d_def field_simps)
  have "\<lceil>d - 1\<rceil> = \<lceil>d\<rceil> - 1"
    by simp
  moreover from gap have "1 < \<lceil>d\<rceil>"
    by (simp add: less_ceiling_iff)
  ultimately have less: "nat \<lceil>d - 1\<rceil> < nat \<lceil>d\<rceil>"
    by linarith
  show
    "((env, folder_to_check, extension, folder_storage, replace_filename, max_waiting_download,
       waiting_time + 1 / 5, logger, time_sleep env w),
      (env, folder_to_check, extension, folder_storage, replace_filename, max_waiting_download,
       waiting_time, logger, w))
       \<in> measure (\<lambda>(env, folder_to_check, extension, folder_storage, replace_filename,
                      max_waiting_download, waiting_time, logger, w).
                      nat \<lceil>(of_int max_waiting_download - waiting_time) * 5\<rceil>)"
    unfolding in_measure prod.case step
    using less by (simp only: d_def)
qed

declare wait_loop.simps [simp del]

definition wait_download_file ::
  "'w os_env \<Rightarrow> string \<Rightarrow> string \<Rightarrow> string \<Rightarrow> string option \<Rightarrow> int
     \<Rightarrow> logger option \<Rightarrow> 'w \<Rightarrow> 'w outcome" where
  "wait_download_file env folder_to_check extension folder_storage replace_filename
     max_waiting_download logger w =
     (if folder_to_check = [] \<or> folder_storage = []
      then (Inl (ValueError ''Folder paths cannot be empty''), logger, w)
      else if extension = []
      then (Inl (ValueError ''Extension cannot be empty''), logger, w)
      else case os_makedirs env folder_to_check w of
             (Some e, w1) \<Rightarrow> (Inl (OSError (''Failed to create folders: '' @ e)), logger, w1)
           | (None, w1) \<Rightarrow>
               (case os_makedirs env folder_storage w1 of
                  (Some e, w2) \<Rightarrow>
                    (Inl (OSError (''Failed to create folders: '' @ e)), logger, w2)
                | (None, w2) \<Rightarrow>
                    if \<not> os_path_isdir env folder_to_check w2
                       \<or> \<not> os_path_isdir env folder_storage w2
                    then (Inl (ValueError ''Invalid folder paths''), logger, w2)
                    else wait_loop env folder_to_check (normalize_extension extension)
                           folder_storage replace_filename max_waiting_download 0 logger w2))"

section \<open>A reference file system\<close>

text \<open>
  One world to run \<open>wait_download_file\<close> in: a POSIX-like file system on one device,
  without symbolic links and with case-sensitive names, seen from a working directory that
  is the root. An entry is keyed by the components of its path, and the order of the
  entries is the order in which \<open>os.listdir\<close> reports them. The root is always a
  directory. The text of an \<open>OSError\<close> is its \<open>strerror\<close>, without the errno and the path
  that Python adds.
\<close>

datatype node = File string | Dir

record fsys =
  entries :: "(string list \<times> node) list"
  ticks :: nat

fun split_on :: "char \<Rightarrow> string \<Rightarrow> string list" where
  "split_on c [] = [[]]"
| "split_on c (x # xs) =
     (if x = c then [] # split_on c xs
      else (x # hd (split_on c xs)) # tl (split_on c xs))"

definition walk :: "string list \<Rightarrow> string \<Rightarrow> string list" where
  \<comment> \<open>one component of a path: an empty one and \<open>.\<close> stay, \<open>..\<close> goes up\<close>
  "walk k c = (if c = [] \<or> c = ''.'' then k else if c = ''..'' then butlast k else k @ [c])"

definition components :: "string \<Rightarrow> string list" where
  "components p = foldl walk [] (split_on CHR ''/'' p)"

definition node_at :: "fsys \<Rightarrow> string list \<Rightarrow> node option" where
  "node_at w k = (if k = [] then Some Dir else map_of (entries w) k)"

definition put_entry :: "string list \<Rightarrow> node \<Rightarrow> fsys \<Rightarrow> fsys" where
  "put_entry k n w = w\<lparr>entries := filter (\<lambda>(k', _). k' \<noteq> k) (entries w) @ [(k, n)]\<rparr>"

definition drop_entry :: "string list \<Rightarrow> fsys \<Rightarrow> fsys" where
  "drop_entry k w = w\<lparr>entries := filter (\<lambda>(k', _). k' \<noteq> k) (entries w)\<rparr>"

definition fs_exists :: "string \<Rightarrow> fsys \<Rightarrow> bool" where
  "fs_exists p w = (node_at w (components p) \<noteq> None)"

definition fs_isdir :: "string \<Rightarrow> fsys \<Rightarrow> bool" where
  "fs_isdir p w = (node_at w (components p) = Some Dir)"

definition fs_isfile :: "string \<Rightarrow> fsys \<Rightarrow> bool" where
  "fs_isfile p w = (case node_at w (components p) of Some (File _) \<Rightarrow> True | _ \<Rightarrow> False)"

definition children :: "string list \<Rightarrow> fsys \<Rightarrow> string list" where
  "children k w = map (last \<circ> fst) (filter (\<lambda>(k', _). k' \<noteq> [] \<and> butlast k' = k) (entries w))"

definition fs_listdir :: "string \<Rightarrow> fsys \<Rightarrow> string + string list" where
  "fs_listdir p w =
     (case node_at w (components p) of
        Some Dir \<Rightarrow> Inr (children (components p) w)
      | Some (File _) \<Rightarrow> Inl ''Not a directory''
      | None \<Rightarrow> Inl ''No such file or directory'')"

fun mkdirs :: "string list \<Rightarrow> string list \<Rightarrow> fsys \<Rightarrow> string option \<times> fsys" where
  \<comment> \<open>\<open>os.makedirs(name, exist_ok=True)\<close>, from the directory \<open>pre\<close> down the components left\<close>
  "mkdirs pre [] w = (None, w)"
| "mkdirs pre (c # cs) w =
     (case node_at w (pre @ [c]) of
        Some Dir \<Rightarrow> mkdirs (pre @ [c]) cs w
      | Some (File _) \<Rightarrow> (Some (if cs = [] then ''File exists'' else ''Not a directory''), w)
      | None \<Rightarrow> mkdirs (pre @ [c]) cs (put_entry (pre @ [c]) Dir w))"

definition fs_makedirs :: "string \<Rightarrow> fsys \<Rightarrow> string option \<times> fsys" where
  "fs_makedirs p w = mkdirs [] (components p) w"

definition fs_rename :: "string list \<Rightarrow> string list \<Rightarrow> fsys \<Rightarrow> string option \<times> fsys" where
  \<comment> \<open>\<open>os.rename\<close> as \<open>shutil.move\<close> uses it; where it fails on one device, the copy that
      \<open>shutil.move\<close> falls back to fails as well\<close>
  "fs_rename s t w =
     (case node_at w s of
        None \<Rightarrow> (Some ''No such file or directory'', w)
      | Some (File c) \<Rightarrow>
          if s = t then (None, w)
          else if t = [] \<or> node_at w t = Some Dir then (Some ''Is a directory'', w)
          else (case node_at w (butlast t) of
                  Some Dir \<Rightarrow> (None, put_entry t (File c) (drop_entry s w))
                | Some (File _) \<Rightarrow> (Some ''Not a directory'', w)
                | None \<Rightarrow> (Some ''No such file or directory'', w))
      | Some Dir \<Rightarrow>
          if s = t then (None, w)
          else if take (length s) t = s then (Some ''Cannot move a directory into itself'', w)
          else if node_at w t \<noteq> None then (Some ''File exists'', w)
          else (case node_at w (butlast t) of
                  Some Dir \<Rightarrow>
                    (None,
                     w\<lparr>entries :=
                         map (\<lambda>(k, n). if take (length s) k = s
                                        then (t @ drop (length s) k, n) else (k, n))
                           (entries w)\<rparr>)
                | Some (File _) \<Rightarrow> (Some ''Not a directory'', w)
                | None \<Rightarrow> (Some ''No such file or directory'', w)))"

definition fs_move :: "string \<Rightarrow> string \<Rightarrow> fsys \<Rightarrow> string option \<times> fsys" where
  \<comment> \<open>\<open>shutil.move(src, dst)\<close>: into \<open>dst\<close> when that is a directory, onto it otherwise\<close>
  "fs_move src dst w =
     (let s = components src; d = components dst
      in if node_at w d = Some Dir
         then if s = d then (None, w)
              else if s = [] then (Some ''Cannot move a directory into itself'', w)
              else if node_at w (d @ [last s]) \<noteq> None
              then (Some (''Destination path '' @ repr_str (path_join dst (last s))
                            @ '' already exists''), w)
              else fs_rename s (d @ [last s]) w
         else fs_rename s d w)"

definition fs_remove :: "string \<Rightarrow> fsys \<Rightarrow> string option \<times> fsys" where
  "fs_remove p w =
     (case node_at w (components p) of
        None \<Rightarrow> (Some ''No such file or directory'', w)
      | Some Dir \<Rightarrow> (Some ''Is a directory'', w)
      | Some (File _) \<Rightarrow> (None, drop_entry (components p) w))"

definition posix :: "fsys os_env" where
  \<comment> \<open>nothing else touches the file system while the caller sleeps; the clock moves on\<close>
  "posix =
     \<lparr>os_makedirs = fs_makedirs, os_path_isdir = fs_isdir, os_listdir = fs_listdir,
      os_path_isfile = fs_isfile, shutil_move = fs_move, os_path_exists = fs_exists,
      os_remove = fs_remove, time_sleep = (\<lambda>w. w\<lparr>ticks := ticks w + 1\<rparr>), clock = ticks\<rparr>"

definition wellformed :: "fsys \<Rightarrow> bool" where
  \<comment> \<open>every entry lies in a directory\<close>
  "wellformed w = list_all (\<lambda>(k, _). k \<noteq> [] \<and> node_at w (butlast k) = Some Dir) (entries w)"

section \<open>What the statements speak of\<close>


definition download_result :: "string option \<Rightarrow> string \<Rightarrow> string \<Rightarrow> string list" where
  \<comment> \<open>the triple for one matched name \<open>f\<close>: the target name is the rename when one is given
      and not empty, the lowercased base name otherwise\<close>
  "download_result renameTo storageDir f =
     (let baseName = hd (rsplit1 CHR ''.'' (lower f));
          fileExtension = last (rsplit1 CHR ''.'' (lower f));
          targetName = (case renameTo of
                          Some r \<Rightarrow> if r \<noteq> [] then r else baseName
                        | None \<Rightarrow> baseName)
      in [targetName, path_join storageDir (targetName @ ''.'' @ fileExtension), fileExtension])"


definition regular :: "string \<Rightarrow> bool" where
  \<comment> \<open>a name that one directory entry can bear\<close>
  "regular c = (c \<noteq> [] \<and> c \<noteq> ''.'' \<and> c \<noteq> ''..'' \<and> CHR ''/'' \<notin> set c)"

section \<open>Scenarios\<close>

definition hidden_pdf :: fsys where
  \<comment> \<open>a download directory holding one file whose whole name is \<open>.pdf\<close>\<close>
  "hidden_pdf = \<lparr>entries = [([''downloads''], Dir), ([''downloads'', ''.pdf''], File ''%PDF'')],
                  ticks = 0\<rparr>"

definition one_report :: fsys where
  \<comment> \<open>a download directory holding \<open>report.PDF\<close>; no storage directory yet\<close>
  "one_report =
     \<lparr>entries = [([''downloads''], Dir), ([''downloads'', ''report.PDF''], File ''%PDF-1.7'')],
      ticks = 0\<rparr>"

definition quiet_downloads :: fsys where
  \<comment> \<open>both directories, and nothing in them\<close>
  "quiet_downloads = \<lparr>entries = [([''downloads''], Dir), ([''storage''], Dir)], ticks = 0\<rparr>"

definition one_csv :: fsys where
  "one_csv =
     \<lparr>entries = [([''downloads''], Dir), ([''downloads'', ''a.csv''], File ''1,2'')], ticks = 0\<rparr>"


definition blocked_downloads :: fsys where
  \<comment> \<open>the name of the download directory is taken by a regular file\<close>
  "blocked_downloads = \<lparr>entries = [([''downloads''], File ''not a folder'')], ticks = 0\<rparr>"



section \<open>Strings\<close>

lemma rsplit1_two:
  assumes "c \<in> set s"
  shows "\<exists>a b. rsplit1 c s = [a, b] \<and> s = a @ [c] @ b \<and> c \<notin> set b"
proof -
  let ?r = "rev s"
  let ?t = "takeWhile (\<lambda>x. x \<noteq> c) ?r"
  let ?d = "dropWhile (\<lambda>x. x \<noteq> c) ?r"
  from assms have nonempty: "?d \<noteq> []"
    by (simp add: dropWhile_eq_Nil_conv)
  moreover have "hd ?d = c"
    using nonempty hd_dropWhile [of "\<lambda>x. x \<noteq> c" ?r] by simp
  ultimately have d: "?d = c # tl ?d"
    by (metis list.collapse)
  have "?r = ?t @ ?d"
    by simp
  then have "rev ?r = rev (?t @ c # tl ?d)"
    using d by metis
  then have s: "s = rev (tl ?d) @ [c] @ rev ?t"
    by simp
  have "c \<notin> set (rev ?t)"
    using set_takeWhileD [of c "\<lambda>x. x \<noteq> c" ?r] by auto
  with s assms show ?thesis
    unfolding rsplit1_def by auto
qed

lemma endswith_mem: "endswith s (c # e) \<Longrightarrow> c \<in> set s"
proof -
  assume "endswith s (c # e)"
  then have "drop (length s - length (c # e)) s = c # e"
    by (simp add: endswith_def)
  then have "c \<in> set (drop (length s - length (c # e)) s)"
    by simp
  then show ?thesis
    by (rule in_set_dropD)
qed

lemma matching_endswith:
  "f \<in> set (matching env folder_to_check extension w names)
     \<Longrightarrow> endswith (lower f) (''.'' @ extension)"
  by (simp add: matching_def)

lemma matching_has_dot:
  "f \<in> set (matching env folder_to_check extension w names) \<Longrightarrow> CHR ''.'' \<in> set (lower f)"
  using matching_endswith [of f env folder_to_check extension w names]
    endswith_mem [of "lower f" "CHR ''.''" extension]
  by simp

section \<open>The processing pass\<close>

lemma process_files_no_unpack_error:
  "\<forall>f \<in> set files. CHR ''.'' \<in> set (lower f)
     \<Longrightarrow> fst (process_files env folder_to_check folder_storage replace_filename files
                output_file logger w) \<noteq> Inl (ValueError m)"
proof (induction files arbitrary: output_file logger w replace_filename)
  case Nil
  show ?case by simp
next
  case (Cons f files)
  then have "CHR ''.'' \<in> set (lower f)"
    by simp
  then obtain a b where split: "rsplit1 CHR ''.'' (lower f) = [a, b]"
    using rsplit1_two by blast
  from Cons.prems have rest: "\<forall>f \<in> set files. CHR ''.'' \<in> set (lower f)"
    by simp
  show ?case
    by (simp add: split Let_def Cons.IH [OF rest] split: prod.splits option.splits)
qed




lemma process_files_step:
  assumes "rsplit1 CHR ''.'' (lower f) = [name, ext]"
  shows "process_files env folder_to_check folder_storage replace_filename (f # rest)
           output_file logger w =
         (case shutil_move env (path_join folder_to_check f)
                 (download_result replace_filename folder_storage f ! 1) w of
            (Some e, w') \<Rightarrow>
              (Inl (OSError e),
               log_if env logger w'
                 (move_failed_msg (path_join folder_to_check f) e) True, w')
          | (None, w') \<Rightarrow>
              (case cleanup env (path_join folder_to_check f)
                      (log_if env logger w'
                         (moved_msg (path_join folder_to_check f)
                            (download_result replace_filename folder_storage f ! 1)) False) w' of
                 (logger', w'') \<Rightarrow>
                   process_files env folder_to_check folder_storage replace_filename rest
                     (output_file @ [download_result replace_filename folder_storage f])
                     logger' w''))"
  using assms
  by (simp add: download_result_def Let_def split: prod.splits option.splits)

lemma process_files_move_failed:
  assumes "rsplit1 CHR ''.'' (lower f) = [name, ext]"
    and "shutil_move env (path_join folder_to_check f)
           (download_result replace_filename folder_storage f ! 1) w = (Some e, w')"
  shows "process_files env folder_to_check folder_storage replace_filename (f # rest)
           output_file logger w =
         (Inl (OSError e),
          log_if env logger w'
            (move_failed_msg (path_join folder_to_check f) e) True, w')"
  unfolding process_files_step [OF assms(1)] assms(2) by simp

lemma process_files_moved:
  assumes "rsplit1 CHR ''.'' (lower f) = [name, ext]"
    and "shutil_move env (path_join folder_to_check f)
           (download_result replace_filename folder_storage f ! 1) w = (None, w')"
    and "cleanup env (path_join folder_to_check f)
           (log_if env logger w'
              (moved_msg (path_join folder_to_check f)
                 (download_result replace_filename folder_storage f ! 1)) False) w'
         = (logger', w'')"
  shows "process_files env folder_to_check folder_storage replace_filename (f # rest)
           output_file logger w =
         process_files env folder_to_check folder_storage replace_filename rest
           (output_file @ [download_result replace_filename folder_storage f]) logger' w''"
  unfolding process_files_step [OF assms(1)] assms(2) using assms(3) by simp

declare process_files.simps(2) [simp del]

lemma process_files_results:
  "\<forall>f \<in> set files. CHR ''.'' \<in> set (lower f)
   \<Longrightarrow> process_files env folder_to_check folder_storage replace_filename files
         output_file logger w = (Inr res, lgo, w')
   \<Longrightarrow> res = output_file @ map (download_result replace_filename folder_storage) files"
proof (induction files arbitrary: output_file logger w)
  case Nil
  then show ?case by simp
next
  case (Cons f files)
  then have "CHR ''.'' \<in> set (lower f)"
    by simp
  then obtain a b where split: "rsplit1 CHR ''.'' (lower f) = [a, b]"
    using rsplit1_two by blast
  from Cons.prems have rest: "\<forall>f \<in> set files. CHR ''.'' \<in> set (lower f)"
    by simp
  let ?src = "path_join folder_to_check f"
  let ?dst = "download_result replace_filename folder_storage f ! 1"
  obtain r w1 where move: "shutil_move env ?src ?dst w = (r, w1)"
    by (cases "shutil_move env ?src ?dst w")
  show ?case
  proof (cases r)
    case (Some e)
    with move Cons.prems(2) show ?thesis
      by (simp add: process_files_move_failed [OF split])
  next
    case None
    obtain lg1 w2 where clean: "cleanup env ?src
        (log_if env logger w1 (moved_msg ?src ?dst) False) w1
        = (lg1, w2)"
      by (cases "cleanup env ?src
        (log_if env logger w1 (moved_msg ?src ?dst) False) w1")
    from move None have "shutil_move env ?src ?dst w = (None, w1)"
      by simp
    from Cons.prems(2) have "process_files env folder_to_check folder_storage replace_filename
        files (output_file @ [download_result replace_filename folder_storage f]) lg1 w2
        = (Inr res, lgo, w')"
      unfolding process_files_moved [OF split \<open>shutil_move env ?src ?dst w = (None, w1)\<close> clean] .
    from Cons.IH [OF rest this] show ?thesis
      by simp
  qed
qed


section \<open>The polling loop\<close>

lemma wait_loop_listdir_failed:
  "os_listdir env folder_to_check w = Inl e
   \<Longrightarrow> wait_loop env folder_to_check extension folder_storage replace_filename
         max_waiting_download waiting_time logger w = (Inl (OSError e), logger, w)"
  by (subst wait_loop.simps) simp

lemma wait_loop_found:
  "os_listdir env folder_to_check w = Inr names
   \<Longrightarrow> matching env folder_to_check extension w names \<noteq> []
   \<Longrightarrow> wait_loop env folder_to_check extension folder_storage replace_filename
         max_waiting_download waiting_time logger w =
       process_files env folder_to_check folder_storage replace_filename
         (matching env folder_to_check extension w names) []
         (log_if env logger w (found_msg (matching env folder_to_check extension w names)) False)
         w"
  by (subst wait_loop.simps) simp

lemma wait_loop_timed_out:
  "os_listdir env folder_to_check w = Inr names
   \<Longrightarrow> matching env folder_to_check extension w names = []
   \<Longrightarrow> of_int max_waiting_download \<le> waiting_time + 1 / 5
   \<Longrightarrow> wait_loop env folder_to_check extension folder_storage replace_filename
         max_waiting_download waiting_time logger w =
       (Inl (TimeoutError ''Timeout waiting for download''),
        log_if env logger w (timeout_msg max_waiting_download) True, w)"
  by (subst wait_loop.simps) simp

lemma wait_loop_again:
  "os_listdir env folder_to_check w = Inr names
   \<Longrightarrow> matching env folder_to_check extension w names = []
   \<Longrightarrow> \<not> of_int max_waiting_download \<le> waiting_time + 1 / 5
   \<Longrightarrow> wait_loop env folder_to_check extension folder_storage replace_filename
         max_waiting_download waiting_time logger w =
       wait_loop env folder_to_check extension folder_storage replace_filename
         max_waiting_download (waiting_time + 1 / 5) logger (time_sleep env w)"
  by (subst wait_loop.simps) simp


lemma wait_loop_results:
  "wait_loop env folder_to_check extension folder_storage replace_filename
     max_waiting_download waiting_time logger w = (Inr res, lgo, w')
   \<Longrightarrow> \<exists>k names. os_listdir env folder_to_check ((time_sleep env ^^ k) w) = Inr names
         \<and> matching env folder_to_check extension ((time_sleep env ^^ k) w) names \<noteq> []
         \<and> res = map (download_result replace_filename folder_storage)
                   (matching env folder_to_check extension ((time_sleep env ^^ k) w) names)"
proof (induction env folder_to_check extension folder_storage replace_filename
    max_waiting_download waiting_time logger w rule: wait_loop.induct)
  case (1 env folder_to_check extension folder_storage replace_filename max_waiting_download
      waiting_time logger w)
  show ?case
  proof (cases "os_listdir env folder_to_check w")
    case (Inl e)
    with "1.prems" show ?thesis
      by (simp add: wait_loop_listdir_failed)
  next
    case (Inr names)
    let ?files = "matching env folder_to_check extension w names"
    show ?thesis
    proof (cases "?files = []")
      case False
      from "1.prems" have run: "process_files env folder_to_check folder_storage replace_filename
          ?files [] (log_if env logger w (found_msg ?files) False) w = (Inr res, lgo, w')"
        unfolding wait_loop_found [OF Inr False] .
      have "\<forall>f \<in> set ?files. CHR ''.'' \<in> set (lower f)"
        by (auto intro: matching_has_dot)
      from process_files_results [OF this run]
      have "res = map (download_result replace_filename folder_storage) ?files"
        by simp
      with Inr False have "os_listdir env folder_to_check ((time_sleep env ^^ 0) w) = Inr names
         \<and> matching env folder_to_check extension ((time_sleep env ^^ 0) w) names \<noteq> []
         \<and> res = map (download_result replace_filename folder_storage)
                   (matching env folder_to_check extension ((time_sleep env ^^ 0) w) names)"
        by simp
      then show ?thesis
        by (intro exI)
    next
      case True
      show ?thesis
      proof (cases "of_int max_waiting_download \<le> waiting_time + 1 / 5")
        case late: True
        with "1.prems" show ?thesis
          by (simp add: wait_loop_timed_out [OF Inr True])
      next
        case False
        from "1.prems" have "wait_loop env folder_to_check extension folder_storage
            replace_filename max_waiting_download (waiting_time + 1 / 5) logger (time_sleep env w)
            = (Inr res, lgo, w')"
          unfolding wait_loop_again [OF Inr True False] .
        from "1.IH" [OF Inr _ False this] True
        obtain k names' where
          "os_listdir env folder_to_check ((time_sleep env ^^ k) (time_sleep env w)) = Inr names'
           \<and> matching env folder_to_check extension ((time_sleep env ^^ k) (time_sleep env w)) names' \<noteq> []
           \<and> res = map (download_result replace_filename folder_storage)
                   (matching env folder_to_check extension ((time_sleep env ^^ k) (time_sleep env w)) names')"
          by auto
        then have "os_listdir env folder_to_check ((time_sleep env ^^ Suc k) w) = Inr names'
           \<and> matching env folder_to_check extension ((time_sleep env ^^ Suc k) w) names' \<noteq> []
           \<and> res = map (download_result replace_filename folder_storage)
                   (matching env folder_to_check extension ((time_sleep env ^^ Suc k) w) names')"
          by (simp add: funpow_swap1)
        then show ?thesis
          by (intro exI)
      qed
    qed
  qed
qed






section \<open>Paths and the reference file system\<close>

lemma split_on_nonempty: "split_on c s \<noteq> []"
  by (induction s) auto

lemma split_on_append: "split_on c (a @ c # b) = split_on c a @ split_on c b"
proof (induction a)
  case Nil
  show ?case by simp
next
  case (Cons x a)
  show ?case
  proof (cases "x = c")
    case True
    with Cons show ?thesis by simp
  next
    case False
    have "split_on c a \<noteq> []"
      by (rule split_on_nonempty)
    with False Cons show ?thesis
      by simp
  qed
qed

lemma split_on_single: "c \<notin> set s \<Longrightarrow> split_on c s = [s]"
  by (induction s) auto

lemma split_on_parts: "p \<in> set (split_on c s) \<Longrightarrow> c \<notin> set p"
proof (induction s arbitrary: p)
  case Nil
  then show ?case by simp
next
  case (Cons x s)
  have ne: "split_on c s \<noteq> []"
    by (rule split_on_nonempty)
  show ?case
  proof (cases "x = c")
    case True
    with Cons show ?thesis by auto
  next
    case False
    with Cons.prems have "p = x # hd (split_on c s) \<or> p \<in> set (tl (split_on c s))"
      by simp
    then show ?thesis
    proof
      assume "p = x # hd (split_on c s)"
      moreover have "c \<notin> set (hd (split_on c s))"
        using ne Cons.IH [of "hd (split_on c s)"] by simp
      ultimately show ?thesis
        using False by auto
    next
      assume "p \<in> set (tl (split_on c s))"
      then have "p \<in> set (split_on c s)"
        by (rule list.set_sel(2) [OF ne])
      then show ?thesis
        by (rule Cons.IH)
    qed
  qed
qed

lemma walk_regular: "regular c \<Longrightarrow> walk k c = k @ [c]"
  by (simp add: walk_def regular_def)

lemma foldl_walk_regular:
  "\<forall>c \<in> set k. regular c \<Longrightarrow> \<forall>c \<in> set ps. CHR ''/'' \<notin> set c
   \<Longrightarrow> \<forall>c \<in> set (foldl walk k ps). regular c"
proof (induction ps arbitrary: k)
  case Nil
  then show ?case by simp
next
  case (Cons p ps)
  have "\<forall>c \<in> set (walk k p). regular c"
  proof (cases "p = [] \<or> p = ''.''")
    case True
    with Cons.prems(1) show ?thesis
      by (auto simp: walk_def)
  next
    case False
    show ?thesis
    proof (cases "p = ''..''")
      case True
      with Cons.prems(1) show ?thesis
        by (auto simp: walk_def dest: in_set_butlastD)
    next
      case dots: False
      with False Cons.prems show ?thesis
        by (auto simp: walk_def regular_def)
    qed
  qed
  with Cons show ?case
    by simp
qed

lemma components_regular: "c \<in> set (components p) \<Longrightarrow> regular c"
proof -
  have "\<forall>c \<in> set (foldl walk [] (split_on CHR ''/'' p)). regular c"
    by (rule foldl_walk_regular) (auto dest: split_on_parts)
  then show "c \<in> set (components p) \<Longrightarrow> regular c"
    by (simp add: components_def)
qed

lemma components_join:
  assumes "d \<noteq> []" and "regular f"
  shows "components (path_join d f) = components d @ [f]"
proof -
  from assms(2) have nosep: "CHR ''/'' \<notin> set f" and "f \<noteq> []"
    by (simp_all add: regular_def)
  then have nostart: "\<not> startswith f ''/''"
    by (cases f) (auto simp: startswith_def)
  show ?thesis
  proof (cases "endswith d ''/''")
    case True
    then have "drop (length d - 1) d = ''/''" and "1 \<le> length d"
      by (simp_all add: endswith_def)
    then have d: "d = take (length d - 1) d @ ''/''"
      by (metis append_take_drop_id)
    let ?h = "take (length d - 1) d"
    have "path_join d f = ?h @ CHR ''/'' # f"
      using nostart True d by (simp add: path_join_def)
    then have "components (path_join d f)
        = foldl walk [] (split_on CHR ''/'' ?h @ split_on CHR ''/'' f)"
      by (simp add: components_def split_on_append)
    also have "\<dots> = walk (foldl walk [] (split_on CHR ''/'' ?h)) f"
      by (simp add: split_on_single [OF nosep])
    also have "foldl walk [] (split_on CHR ''/'' ?h) = components d"
    proof -
      have "components d = foldl walk [] (split_on CHR ''/'' (?h @ CHR ''/'' # []))"
        using d by (simp add: components_def)
      also have "\<dots> = foldl walk [] (split_on CHR ''/'' ?h @ [[]])"
        by (simp only: split_on_append split_on.simps)
      also have "\<dots> = foldl walk [] (split_on CHR ''/'' ?h)"
        by (simp add: walk_def)
      finally show ?thesis ..
    qed
    finally show ?thesis
      by (simp add: walk_regular [OF assms(2)])
  next
    case False
    with nostart assms(1) have "path_join d f = d @ CHR ''/'' # f"
      by (simp add: path_join_def)
    then have "components (path_join d f)
        = foldl walk [] (split_on CHR ''/'' d @ split_on CHR ''/'' f)"
      by (simp add: components_def split_on_append)
    also have "\<dots> = walk (components d) f"
      by (simp add: split_on_single [OF nosep] components_def)
    finally show ?thesis
      by (simp add: walk_regular [OF assms(2)])
  qed
qed

lemma map_of_without:
  "map_of (filter (\<lambda>(k', _). k' \<noteq> k) es) k' = (if k' = k then None else map_of es k')"
  by (induction es) auto

lemma node_at_put:
  "node_at (put_entry k n w) k' =
     (if k' = [] then Some Dir else if k' = k then Some n else node_at w k')"
  by (simp add: node_at_def put_entry_def map_of_append map_add_def map_of_without
      split: option.splits)

lemma node_at_drop:
  "node_at (drop_entry k w) k' =
     (if k' = [] then Some Dir else if k' = k then None else node_at w k')"
  by (simp add: node_at_def drop_entry_def map_of_without)

lemma filter_absent:
  "map_of es k = None \<Longrightarrow> filter (\<lambda>(k', _). k' \<noteq> k) es = es"
  by (induction es) (auto split: if_splits)

lemma put_entry_new:
  "k \<noteq> [] \<Longrightarrow> node_at w k = None \<Longrightarrow> entries (put_entry k n w) = entries w @ [(k, n)]"
  by (simp add: put_entry_def node_at_def filter_absent)

lemma ticks_put [simp]: "ticks (put_entry k n w) = ticks w"
  by (simp add: put_entry_def)

lemma ticks_drop [simp]: "ticks (drop_entry k w) = ticks w"
  by (simp add: drop_entry_def)

text \<open>What a successful mkdirs leaves: the old entries, then new directories on the way.\<close>

lemma mkdirs_adds:
  "mkdirs pre cs w = (None, w')
   \<Longrightarrow> \<exists>added. entries w' = entries w @ map (\<lambda>k. (k, Dir)) added
         \<and> ticks w' = ticks w
         \<and> (\<forall>k \<in> set added. node_at w k = None
               \<and> (\<exists>i. 0 < i \<and> i \<le> length cs \<and> k = pre @ take i cs))"
proof (induction cs arbitrary: pre w)
  case Nil
  then have "entries w' = entries w @ map (\<lambda>k. (k, Dir)) []" and "ticks w' = ticks w"
    by simp_all
  then show ?case
    by (intro exI [of _ "[]"]) simp
next
  case (Cons c cs)
  show ?case
  proof (cases "node_at w (pre @ [c])")
    case None
    with Cons.prems have rec: "mkdirs (pre @ [c]) cs (put_entry (pre @ [c]) Dir w) = (None, w')"
      by simp
    from Cons.IH [OF rec] obtain added where
      e: "entries w' = entries (put_entry (pre @ [c]) Dir w) @ map (\<lambda>k. (k, Dir)) added"
      and t: "ticks w' = ticks w"
      and a: "\<forall>k \<in> set added. node_at (put_entry (pre @ [c]) Dir w) k = None
               \<and> (\<exists>i. 0 < i \<and> i \<le> length cs \<and> k = (pre @ [c]) @ take i cs)"
      by auto
    have e': "entries w' = entries w @ map (\<lambda>k. (k, Dir)) ((pre @ [c]) # added)"
      using e None by (simp add: put_entry_new)
    have "\<forall>k \<in> set ((pre @ [c]) # added). node_at w k = None
               \<and> (\<exists>i. 0 < i \<and> i \<le> length (c # cs) \<and> k = pre @ take i (c # cs))"
    proof
      fix k
      assume "k \<in> set ((pre @ [c]) # added)"
      then consider "k = pre @ [c]" | "k \<in> set added"
        by auto
      then show "node_at w k = None
               \<and> (\<exists>i. 0 < i \<and> i \<le> length (c # cs) \<and> k = pre @ take i (c # cs))"
      proof cases
        case 1
        then have "0 < Suc 0 \<and> Suc 0 \<le> length (c # cs) \<and> k = pre @ take (Suc 0) (c # cs)"
          by simp
        then have "\<exists>i. 0 < i \<and> i \<le> length (c # cs) \<and> k = pre @ take i (c # cs)"
          by (rule exI)
        with 1 None show ?thesis
          by simp
      next
        case 2
        with a obtain i where none: "node_at (put_entry (pre @ [c]) Dir w) k = None"
          and i: "0 < i" "i \<le> length cs" "k = (pre @ [c]) @ take i cs"
          by blast
        from none have "node_at w k = None"
          by (simp add: node_at_put split: if_splits)
        moreover from i have "0 < Suc i \<and> Suc i \<le> length (c # cs)
            \<and> k = pre @ take (Suc i) (c # cs)"
          by simp
        then have "\<exists>i. 0 < i \<and> i \<le> length (c # cs) \<and> k = pre @ take i (c # cs)"
          by (rule exI)
        ultimately show ?thesis
          by simp
      qed
    qed
    with e' t show ?thesis
      by (intro exI [of _ "(pre @ [c]) # added"]) simp
  next
    case (Some n)
    show ?thesis
    proof (cases n)
      case (File x)
      with Some Cons.prems show ?thesis
        by simp
    next
      case Dir
      with Some Cons.prems have rec: "mkdirs (pre @ [c]) cs w = (None, w')"
        by simp
      from Cons.IH [OF rec] obtain added where
        e: "entries w' = entries w @ map (\<lambda>k. (k, Dir)) added"
        and t: "ticks w' = ticks w"
        and a: "\<forall>k \<in> set added. node_at w k = None
               \<and> (\<exists>i. 0 < i \<and> i \<le> length cs \<and> k = (pre @ [c]) @ take i cs)"
        by auto
      have "\<forall>k \<in> set added. node_at w k = None
               \<and> (\<exists>i. 0 < i \<and> i \<le> length (c # cs) \<and> k = pre @ take i (c # cs))"
      proof
        fix k
        assume "k \<in> set added"
        with a obtain i where none: "node_at w k = None"
          and i: "0 < i" "i \<le> length cs" "k = (pre @ [c]) @ take i cs"
          by blast
        from i have "0 < Suc i \<and> Suc i \<le> length (c # cs)
            \<and> k = pre @ take (Suc i) (c # cs)"
          by simp
        then have "\<exists>i. 0 < i \<and> i \<le> length (c # cs) \<and> k = pre @ take i (c # cs)"
          by (rule exI)
        with none show "node_at w k = None
               \<and> (\<exists>i. 0 < i \<and> i \<le> length (c # cs) \<and> k = pre @ take i (c # cs))"
          by simp
      qed
      with e t show ?thesis
        by (intro exI [of _ added]) simp
    qed
  qed
qed

lemma node_at_added:
  assumes "entries w' = entries w @ map (\<lambda>k. (k, Dir)) added"
  shows "node_at w' k =
           (case node_at w k of Some n \<Rightarrow> Some n
            | None \<Rightarrow> if k \<in> set added then Some Dir else None)"
proof -
  have "map_of (map (\<lambda>k. (k, Dir)) added) k = (if k \<in> set added then Some Dir else None)"
    by (induction added) auto
  then show ?thesis
    by (simp add: node_at_def assms map_of_append map_add_def split: option.splits)
qed

lemma mkdirs_target:
  "mkdirs pre cs w = (None, w') \<Longrightarrow> node_at w pre = Some Dir
   \<Longrightarrow> node_at w' (pre @ cs) = Some Dir"
proof (induction cs arbitrary: pre w)
  case Nil
  then show ?case by simp
next
  case (Cons c cs)
  show ?case
  proof (cases "node_at w (pre @ [c])")
    case None
    with Cons.prems have rec: "mkdirs (pre @ [c]) cs (put_entry (pre @ [c]) Dir w) = (None, w')"
      by simp
    have "node_at (put_entry (pre @ [c]) Dir w) (pre @ [c]) = Some Dir"
      by (simp add: node_at_put)
    from Cons.IH [OF rec this] show ?thesis
      by simp
  next
    case (Some n)
    show ?thesis
    proof (cases n)
      case (File x)
      with Some Cons.prems show ?thesis
        by simp
    next
      case Dir
      with Some Cons.prems have rec: "mkdirs (pre @ [c]) cs w = (None, w')"
        by simp
      from Some Dir have "node_at w (pre @ [c]) = Some Dir"
        by simp
      from Cons.IH [OF rec this] show ?thesis
        by simp
    qed
  qed
qed

lemma wellformed_parent:
  assumes "wellformed w" and "node_at w k = Some n" and "k \<noteq> []"
  shows "node_at w (butlast k) = Some Dir"
proof -
  from assms(2,3) have "map_of (entries w) k = Some n"
    by (simp add: node_at_def)
  then have "(k, n) \<in> set (entries w)"
    by (rule map_of_SomeD)
  with assms(1) show ?thesis
    by (auto simp: wellformed_def list_all_iff)
qed

lemma wellformed_prefix:
  "wellformed w \<Longrightarrow> cs \<noteq> [] \<Longrightarrow> node_at w (pre @ cs) \<noteq> None
   \<Longrightarrow> node_at w pre = Some Dir"
proof (induction cs rule: rev_induct)
  case Nil
  then show ?case by simp
next
  case (snoc c cs)
  from snoc.prems(3) obtain n where "node_at w ((pre @ cs) @ [c]) = Some n"
    by auto
  from wellformed_parent [OF snoc.prems(1) this]
  have "node_at w (butlast ((pre @ cs) @ [c])) = Some Dir"
    by simp
  then have up: "node_at w (pre @ cs) = Some Dir"
    by (simp only: butlast_snoc)
  show ?case
  proof (cases "cs = []")
    case True
    with up show ?thesis by simp
  next
    case False
    from snoc.IH [OF snoc.prems(1) False] up show ?thesis
      by simp
  qed
qed

lemma mkdirs_existing:
  "wellformed w \<Longrightarrow> node_at w (pre @ cs) = Some Dir \<Longrightarrow> mkdirs pre cs w = (None, w)"
proof (induction cs arbitrary: pre)
  case Nil
  show ?case by simp
next
  case (Cons c cs)
  have here: "node_at w (pre @ [c]) = Some Dir"
  proof (cases "cs = []")
    case True
    with Cons.prems(2) show ?thesis by simp
  next
    case False
    from Cons.prems(2) have "node_at w ((pre @ [c]) @ cs) \<noteq> None"
      by simp
    from wellformed_prefix [OF Cons.prems(1) False this] show ?thesis .
  qed
  from Cons.prems(2) have "node_at w ((pre @ [c]) @ cs) = Some Dir"
    by simp
  from Cons.IH [OF Cons.prems(1) this] here show ?case
    by simp
qed

lemma children_added:
  assumes "entries w' = entries w @ map (\<lambda>k. (k, Dir)) added"
  shows "children k w' = children k w
           @ map last (filter (\<lambda>k'. k' \<noteq> [] \<and> butlast k' = k) added)"
proof -
  have "map (last \<circ> fst) (filter (\<lambda>(k', _). k' \<noteq> [] \<and> butlast k' = k)
          (map (\<lambda>k. (k, Dir)) added))
        = map last (filter (\<lambda>k'. k' \<noteq> [] \<and> butlast k' = k) added)"
    by (induction added) auto
  then show ?thesis
    by (simp add: children_def assms)
qed

lemma fs_move_file:
  assumes "node_at w (components src) = Some (File c)"
    and "components src \<noteq> components dst"
    and "components dst \<noteq> []"
    and "node_at w (components dst) \<noteq> Some Dir"
    and "node_at w (butlast (components dst)) = Some Dir"
  shows "fs_move src dst w
         = (None, put_entry (components dst) (File c) (drop_entry (components src) w))"
  using assms by (simp add: fs_move_def fs_rename_def Let_def)

lemma report_facts:
  "regular ''report.PDF''" "regular ''report.pdf''"
  "lower ''report.PDF'' = ''report.pdf''"
  "rsplit1 CHR ''.'' ''report.pdf'' = [''report'', ''pdf'']"
  "endswith ''report.pdf'' ''.pdf''"
  by code_simp+





lemma outcome_parts: "fst x = a \<Longrightarrow> x = (a, fst (snd x), snd (snd x))"
  by (cases x) auto

section \<open>The whole call\<close>

lemma lower_char_dot: "lower_char c = CHR ''.'' \<longleftrightarrow> c = CHR ''.''"
proof
  assume low: "lower_char c = CHR ''.''"
  show "c = CHR ''.''"
  proof (rule ccontr)
    assume other: "c \<noteq> CHR ''.''"
    let ?n = "of_char c :: nat"
    from low other have up: "(65 \<le> ?n \<and> ?n \<le> 90) \<or> (192 \<le> ?n \<and> ?n \<le> 222 \<and> ?n \<noteq> 215)"
      and moved: "char_of (?n + 32) = CHR ''.''"
      by (auto simp: lower_char_def Let_def split: if_splits)
    from moved have "(of_char (char_of (?n + 32) :: char) :: nat) = of_char CHR ''.''"
      by (rule arg_cong)
    moreover have "(of_char CHR ''.'' :: nat) = 46"
      by simp
    ultimately have wrapped: "(?n + 32) mod 256 = 46"
      by (simp only: of_char_of)
    from up have "?n + 32 < 256"
      by arith
    then have "(?n + 32) mod 256 = ?n + 32"
      by (rule mod_less)
    with wrapped up show False
      by arith
  qed
next
  assume "c = CHR ''.''"
  then show "lower_char c = CHR ''.''"
    by (simp add: lower_char_def)
qed

lemma lower_lstrip:
  "lower a = lower b \<Longrightarrow> lower (lstrip CHR ''.'' a) = lower (lstrip CHR ''.'' b)"
proof (induction a arbitrary: b)
  case Nil
  then show ?case by (simp add: lower_def lstrip_def)
next
  case (Cons x a)
  then obtain y b' where b: "b = y # b'" and xy: "lower_char x = lower_char y"
    and rest: "lower a = lower b'"
    by (cases b) (auto simp: lower_def)
  have "x = CHR ''.'' \<longleftrightarrow> y = CHR ''.''"
    using xy lower_char_dot by metis
  with Cons.IH [OF rest] xy rest show ?case
    unfolding b by (auto simp: lower_def lstrip_def)
qed

lemma normalize_case: "lower a = lower b \<Longrightarrow> normalize_extension a = normalize_extension b"
  unfolding normalize_extension_def by (rule lower_lstrip)

lemma normalize_dot: "normalize_extension (''.'' @ e) = normalize_extension e"
  by (simp add: normalize_extension_def lstrip_def)

lemma same_extension_same_run:
  assumes "a \<noteq> []" "b \<noteq> []" "normalize_extension a = normalize_extension b"
  shows "wait_download_file env folder_to_check a folder_storage replace_filename
           max_waiting_download logger w
       = wait_download_file env folder_to_check b folder_storage replace_filename
           max_waiting_download logger w"
  by (simp only: wait_download_file_def assms)

lemma isabs_join: "isabs a \<Longrightarrow> isabs (path_join a b)"
  by (cases a) (auto simp: isabs_def path_join_def startswith_def)

lemma relative_join:
  "\<not> isabs a \<Longrightarrow> \<not> isabs b \<Longrightarrow> \<not> isabs (path_join a b)"
  by (cases a; cases b) (auto simp: isabs_def path_join_def startswith_def)

lemma download_result_shape:
  "\<exists>name e. download_result replace_filename folder_storage f
            = [name, path_join folder_storage (name @ ''.'' @ e), e]"
  by (simp add: download_result_def Let_def)

lemma wait_download_file_cases:
  obtains
    (invalid) m where
      "wait_download_file env folder_to_check extension folder_storage replace_filename
         max_waiting_download logger w = (Inl (ValueError m), logger, w)"
  | (creation) e w1 where
      "fst (os_makedirs env folder_to_check w) \<noteq> None
       \<or> fst (os_makedirs env folder_storage (snd (os_makedirs env folder_to_check w))) \<noteq> None"
      "wait_download_file env folder_to_check extension folder_storage replace_filename
         max_waiting_download logger w
       = (Inl (OSError (''Failed to create folders: '' @ e)), logger, w1)"
  | (nodir) w2 where
      "fst (os_makedirs env folder_to_check w) = None"
      "fst (os_makedirs env folder_storage (snd (os_makedirs env folder_to_check w))) = None"
      "wait_download_file env folder_to_check extension folder_storage replace_filename
         max_waiting_download logger w = (Inl (ValueError ''Invalid folder paths''), logger, w2)"
  | (loop) w2 where
      "fst (os_makedirs env folder_to_check w) = None"
      "fst (os_makedirs env folder_storage (snd (os_makedirs env folder_to_check w))) = None"
      "wait_download_file env folder_to_check extension folder_storage replace_filename
         max_waiting_download logger w
       = wait_loop env folder_to_check (normalize_extension extension) folder_storage
           replace_filename max_waiting_download 0 logger w2"
proof (cases "folder_to_check = [] \<or> folder_storage = []")
  case True
  then have "wait_download_file env folder_to_check extension folder_storage replace_filename
      max_waiting_download logger w = (Inl (ValueError ''Folder paths cannot be empty''), logger, w)"
    by (simp add: wait_download_file_def)
  then show ?thesis
    by (rule invalid)
next
  case paths: False
  show ?thesis
  proof (cases "extension = []")
    case True
    with paths have "wait_download_file env folder_to_check extension folder_storage
        replace_filename max_waiting_download logger w
        = (Inl (ValueError ''Extension cannot be empty''), logger, w)"
      by (simp add: wait_download_file_def)
    then show ?thesis
      by (rule invalid)
  next
    case ext: False
    obtain r1 w1 where first: "os_makedirs env folder_to_check w = (r1, w1)"
      by (cases "os_makedirs env folder_to_check w")
    show ?thesis
    proof (cases r1)
      case (Some e)
      with paths ext first have "wait_download_file env folder_to_check extension folder_storage
          replace_filename max_waiting_download logger w
          = (Inl (OSError (''Failed to create folders: '' @ e)), logger, w1)"
        by (simp add: wait_download_file_def)
      moreover from first Some have "fst (os_makedirs env folder_to_check w) \<noteq> None
          \<or> fst (os_makedirs env folder_storage (snd (os_makedirs env folder_to_check w))) \<noteq> None"
        by simp
      ultimately show ?thesis
        by (rule creation [rotated])
    next
      case None
      obtain r2 w2 where second: "os_makedirs env folder_storage w1 = (r2, w2)"
        by (cases "os_makedirs env folder_storage w1")
      show ?thesis
      proof (cases r2)
        case (Some e)
        with paths ext first None second
        have "wait_download_file env folder_to_check extension folder_storage
            replace_filename max_waiting_download logger w
            = (Inl (OSError (''Failed to create folders: '' @ e)), logger, w2)"
          by (simp add: wait_download_file_def)
        moreover from first second Some have "fst (os_makedirs env folder_to_check w) \<noteq> None
            \<or> fst (os_makedirs env folder_storage (snd (os_makedirs env folder_to_check w))) \<noteq> None"
          by simp
        ultimately show ?thesis
          by (rule creation [rotated])
      next
        case ok: None
        from first None have f1: "fst (os_makedirs env folder_to_check w) = None"
          by simp
        from first second ok
        have f2: "fst (os_makedirs env folder_storage (snd (os_makedirs env folder_to_check w))) = None"
          by simp
        show ?thesis
        proof (cases "os_path_isdir env folder_to_check w2 \<and> os_path_isdir env folder_storage w2")
          case True
          with paths ext first None second ok
          have "wait_download_file env folder_to_check extension folder_storage
              replace_filename max_waiting_download logger w
              = wait_loop env folder_to_check (normalize_extension extension) folder_storage
                  replace_filename max_waiting_download 0 logger w2"
            by (simp add: wait_download_file_def)
          with f1 f2 show ?thesis
            by (rule loop)
        next
          case False
          with paths ext first None second ok
          have "wait_download_file env folder_to_check extension folder_storage
              replace_filename max_waiting_download logger w
              = (Inl (ValueError ''Invalid folder paths''), logger, w2)"
            by (simp add: wait_download_file_def)
          with f1 f2 show ?thesis
            by (rule nodir)
        qed
      qed
    qed
  qed
qed

lemma wait_download_file_results:
  assumes "wait_download_file env folder_to_check extension folder_storage replace_filename
             max_waiting_download logger w = (Inr res, lgo, w')"
  shows "\<exists>v names. os_listdir env folder_to_check v = Inr names
           \<and> matching env folder_to_check (normalize_extension extension) v names \<noteq> []
           \<and> res = map (download_result replace_filename folder_storage)
                     (matching env folder_to_check (normalize_extension extension) v names)"
proof (cases rule: wait_download_file_cases [of env folder_to_check extension folder_storage
      replace_filename max_waiting_download logger w])
  case (invalid m)
  with assms show ?thesis by simp
next
  case (creation e w1)
  with assms show ?thesis by simp
next
  case (nodir w2)
  with assms show ?thesis by simp
next
  case (loop w2)
  with assms have "wait_loop env folder_to_check (normalize_extension extension) folder_storage
      replace_filename max_waiting_download 0 logger w2 = (Inr res, lgo, w')"
    by simp
  from wait_loop_results [OF this] obtain k names where
    "os_listdir env folder_to_check ((time_sleep env ^^ k) w2) = Inr names
     \<and> matching env folder_to_check (normalize_extension extension) ((time_sleep env ^^ k) w2) names \<noteq> []
     \<and> res = map (download_result replace_filename folder_storage)
               (matching env folder_to_check (normalize_extension extension)
                  ((time_sleep env ^^ k) w2) names)"
    by auto
  then show ?thesis
    by (intro exI)
qed

section \<open>The claims\<close>

text \<open>
  C1. On the reference file system, when the download directory holds the single entry
  \<open>report.PDF\<close>, a regular file, the storage directory exists or can be created, and no
  directory stands where the file is to go, the call with an extension that normalizes to
  \<open>pdf\<close> and a limit of 5 seconds returns exactly the one triple of \<open>report\<close>, the
  storage directory joined with \<open>report.pdf\<close>, and \<open>pdf\<close>. Afterwards the source path no
  longer exists and the destination is a regular file.
\<close>

theorem report_pdf_is_moved:
  assumes wf: "wellformed w"
    and nonempty: "folder_to_check \<noteq> []" "folder_storage \<noteq> []" "extension \<noteq> []"
    and pdf: "normalize_extension extension = ''pdf''"
    and listing: "fs_listdir folder_to_check w = Inr [''report.PDF'']"
    and is_file: "fs_isfile (path_join folder_to_check ''report.PDF'') w"
    and creatable: "fst (fs_makedirs folder_storage w) = None"
    and free: "\<not> fs_isdir (path_join folder_storage ''report.pdf'') w"
  shows "\<exists>lgo w'.
           wait_download_file posix folder_to_check extension folder_storage None 5 logger w
             = (Inr [[''report'', path_join folder_storage ''report.pdf'', ''pdf'']], lgo, w')
           \<and> \<not> fs_exists (path_join folder_to_check ''report.PDF'') w'
           \<and> fs_isfile (path_join folder_storage ''report.pdf'') w'"
proof -
  let ?cw = "components folder_to_check"
  let ?cs = "components folder_storage"
  let ?src = "path_join folder_to_check ''report.PDF''"
  let ?dst = "path_join folder_storage ''report.pdf''"
  let ?s = "?cw @ [''report.PDF'']"
  let ?d = "?cs @ [''report.pdf'']"
  have s: "components ?src = ?s"
    by (rule components_join [OF nonempty(1) report_facts(1)])
  have d: "components ?dst = ?d"
    by (rule components_join [OF nonempty(2) report_facts(2)])
  from listing have watch: "node_at w ?cw = Some Dir" and kids: "children ?cw w = [''report.PDF'']"
    by (auto simp: fs_listdir_def split: option.splits node.splits)
  from is_file obtain c where content: "node_at w ?s = Some (File c)"
    by (auto simp: fs_isfile_def s split: option.splits node.splits)
  \<comment> \<open>the two makedirs\<close>
  have first: "fs_makedirs folder_to_check w = (None, w)"
    unfolding fs_makedirs_def using mkdirs_existing [OF wf, of "[]" ?cw] watch by simp
  obtain w2 where second: "fs_makedirs folder_storage w = (None, w2)"
    using creatable by (cases "fs_makedirs folder_storage w") simp
  then have mk: "mkdirs [] ?cs w = (None, w2)"
    by (simp add: fs_makedirs_def)
  from mkdirs_adds [OF mk] obtain added where
    ents: "entries w2 = entries w @ map (\<lambda>k. (k, Dir)) added"
    and fresh: "\<forall>k \<in> set added. node_at w k = None
                 \<and> (\<exists>i. 0 < i \<and> i \<le> length ?cs \<and> k = [] @ take i ?cs)"
    by blast
  note at2 = node_at_added [OF ents]
  have storage2: "node_at w2 ?cs = Some Dir"
    using mkdirs_target [OF mk] by (simp add: node_at_def)
  have watch2: "node_at w2 ?cw = Some Dir"
    by (simp add: at2 watch)
  have content2: "node_at w2 ?s = Some (File c)"
    by (simp add: at2 content)
  \<comment> \<open>the listing of the pass\<close>
  let ?new = "map last (filter (\<lambda>k'. k' \<noteq> [] \<and> butlast k' = ?cw) added)"
  have list2: "fs_listdir folder_to_check w2 = Inr ([''report.PDF''] @ ?new)"
    by (simp add: fs_listdir_def watch2 children_added [OF ents] kids)
  have new_dirs: "\<not> fs_isfile (path_join folder_to_check n) w2" if "n \<in> set ?new" for n
  proof -
    from that obtain k where k: "k \<in> set added" "k \<noteq> []" "butlast k = ?cw" "n = last k"
      by auto
    then have kn: "k = ?cw @ [n]"
      by (metis append_butlast_last_id)
    from fresh k(1) obtain i where none: "node_at w k = None"
      and i: "0 < i" "i \<le> length ?cs" "k = take i ?cs"
      by auto
    from k(2) have "last k \<in> set k"
      by (rule last_in_set)
    with i(3) have "last k \<in> set ?cs"
      by (auto dest: in_set_takeD)
    with k(4) have "regular n"
      by (simp add: components_regular)
    from components_join [OF nonempty(1) this] kn
    have "components (path_join folder_to_check n) = k"
      by simp
    moreover have "node_at w2 k = Some Dir"
      by (simp add: at2 none k(1))
    ultimately show ?thesis
      by (simp add: fs_isfile_def)
  qed
  have is_file2: "fs_isfile ?src w2"
    by (simp add: fs_isfile_def s content2)
  have found: "matching posix folder_to_check ''pdf'' w2 ([''report.PDF''] @ ?new) = [''report.PDF'']"
  proof -
    have "filter (\<lambda>f. fs_isfile (path_join folder_to_check f) w2
                     \<and> endswith (lower f) (''.'' @ ''pdf'')) ?new = []"
      using new_dirs by (simp add: filter_empty_conv)
    moreover have "endswith (lower ''report.PDF'') (''.'' @ ''pdf'')"
      using report_facts(5) by (simp only: report_facts(3) append_Cons append_Nil)
    ultimately show ?thesis
      using is_file2 by (simp add: matching_def posix_def del: append_Cons)
  qed
  \<comment> \<open>the move\<close>
  have triple: "download_result None folder_storage ''report.PDF''
                = [''report'', ?dst, ''pdf'']"
    by (simp add: download_result_def report_facts(3,4) Let_def)
  have apart: "?s \<noteq> ?d"
    by simp
  have not_added: "?d \<notin> set added"
  proof
    assume "?d \<in> set added"
    with fresh obtain i where "?d = take i ?cs"
      by auto
    then have "length ?d = length (take i ?cs)"
      by (rule arg_cong)
    then show False
      by simp
  qed
  from free have "node_at w ?d \<noteq> Some Dir"
    by (simp add: fs_isdir_def d)
  with not_added have free2: "node_at w2 ?d \<noteq> Some Dir"
    by (auto simp: at2 split: option.splits)
  let ?w3 = "put_entry ?d (File c) (drop_entry ?s w2)"
  have moved: "fs_move ?src ?dst w2 = (None, ?w3)"
    using fs_move_file [of w2 ?src c ?dst] content2 apart free2 storage2
    by (simp add: s d)
  have gone: "\<not> fs_exists ?src ?w3"
    using apart by (simp add: fs_exists_def s node_at_put node_at_drop)
  have arrived: "fs_isfile ?dst ?w3"
    by (simp add: fs_isfile_def d node_at_put)
  \<comment> \<open>the pass\<close>
  have split: "rsplit1 CHR ''.'' (lower ''report.PDF'') = [''report'', ''pdf'']"
    by (simp only: report_facts(3,4))
  have moved': "shutil_move posix ?src (download_result None folder_storage ''report.PDF'' ! 1) w2
                = (None, ?w3)"
    using moved by (simp add: triple posix_def)
  have clean: "cleanup posix ?src lg ?w3 = (lg, ?w3)" for lg
    using gone by (simp add: cleanup_def posix_def)
  have pass: "process_files posix folder_to_check folder_storage None [''report.PDF''] [] lg w2
              = (Inr [[''report'', ?dst, ''pdf'']],
                 log_if posix lg ?w3
                   (moved_msg ?src (download_result None folder_storage ''report.PDF'' ! 1)) False,
                 ?w3)" for lg
    unfolding process_files_moved [OF split moved' clean] by (simp add: triple)
  have start: "wait_download_file posix folder_to_check extension folder_storage None 5 logger w
        = wait_loop posix folder_to_check ''pdf'' folder_storage None 5 0 logger w2"
    using nonempty first second watch2 storage2
    by (simp add: wait_download_file_def posix_def fs_isdir_def pdf)
  have list2': "os_listdir posix folder_to_check w2 = Inr ([''report.PDF''] @ ?new)"
    using list2 by (simp add: posix_def)
  have nonempty_found: "matching posix folder_to_check ''pdf'' w2 ([''report.PDF''] @ ?new) \<noteq> []"
    by (simp only: found) simp
  have "wait_download_file posix folder_to_check extension folder_storage None 5 logger w
        = (Inr [[''report'', ?dst, ''pdf'']],
           log_if posix (log_if posix logger w2 (found_msg [''report.PDF'']) False) ?w3
             (moved_msg ?src (download_result None folder_storage ''report.PDF'' ! 1)) False,
           ?w3)"
    unfolding start wait_loop_found [OF list2' nonempty_found] found pass ..
  with gone arrived show ?thesis
    by blast
qed

theorem report_pdf_is_moved_witness:
  "wellformed one_report
   \<and> normalize_extension ''pdf'' = ''pdf''
   \<and> fs_listdir ''downloads'' one_report = Inr [''report.PDF'']
   \<and> fs_isfile (path_join ''downloads'' ''report.PDF'') one_report
   \<and> fst (fs_makedirs ''storage'' one_report) = None
   \<and> \<not> fs_isdir (path_join ''storage'' ''report.pdf'') one_report
   \<and> (\<exists>lgo w'.
         wait_download_file posix ''downloads'' ''pdf'' ''storage'' None 5 None one_report
           = (Inr [[''report'', path_join ''storage'' ''report.pdf'', ''pdf'']], lgo, w')
         \<and> \<not> fs_exists (path_join ''downloads'' ''report.PDF'') w'
         \<and> fs_isfile (path_join ''storage'' ''report.pdf'') w')"
proof -
  have h1: "wellformed one_report"
    by code_simp
  have h2: "''downloads'' \<noteq> []" and h3: "''storage'' \<noteq> []" and h4: "''pdf'' \<noteq> []"
    by simp_all
  have h5: "normalize_extension ''pdf'' = ''pdf''"
    by code_simp
  have h6: "fs_listdir ''downloads'' one_report = Inr [''report.PDF'']"
    by code_simp
  have h7: "fs_isfile (path_join ''downloads'' ''report.PDF'') one_report"
    by code_simp
  have h8: "fst (fs_makedirs ''storage'' one_report) = None"
    by code_simp
  have h9: "\<not> fs_isdir (path_join ''storage'' ''report.pdf'') one_report"
    by code_simp
  from h1 h5 h6 h7 h8 h9 report_pdf_is_moved [OF h1 h2 h3 h4 h5 h6 h7 h8 h9, of None]
  show ?thesis
    by (intro conjI)
qed








text \<open>
  C4, as amended. In every returned triple the second component is \<open>os.path.join\<close> of
  the storage directory, as it was passed, and the target name with its extension. It is
  an absolute path whenever the storage directory is absolute, and a relative one when
  neither the storage directory nor the target name is absolute.
\<close>

theorem result_paths_are_joined:
  assumes "wait_download_file env folder_to_check extension folder_storage replace_filename
             max_waiting_download logger w = (Inr res, lgo, w')"
  shows "\<forall>r \<in> set res. \<exists>name e.
           r = [name, path_join folder_storage (name @ ''.'' @ e), e]
           \<and> (isabs folder_storage \<longrightarrow> isabs (path_join folder_storage (name @ ''.'' @ e)))
           \<and> (\<not> isabs folder_storage \<and> \<not> isabs name
                \<longrightarrow> \<not> isabs (path_join folder_storage (name @ ''.'' @ e)))"
proof
  fix r
  assume "r \<in> set res"
  with wait_download_file_results [OF assms] obtain f where
    "r = download_result replace_filename folder_storage f"
    by auto
  with download_result_shape obtain name e where
    r: "r = [name, path_join folder_storage (name @ ''.'' @ e), e]"
    by metis
  have "\<not> isabs name \<Longrightarrow> \<not> isabs (name @ ''.'' @ e)"
    by (cases name) (auto simp: isabs_def startswith_def)
  with r show "\<exists>name e.
           r = [name, path_join folder_storage (name @ ''.'' @ e), e]
           \<and> (isabs folder_storage \<longrightarrow> isabs (path_join folder_storage (name @ ''.'' @ e)))
           \<and> (\<not> isabs folder_storage \<and> \<not> isabs name
                \<longrightarrow> \<not> isabs (path_join folder_storage (name @ ''.'' @ e)))"
    using isabs_join relative_join by blast
qed

theorem result_paths_are_joined_witness:
  "fst (wait_download_file posix ''downloads'' ''csv'' ''/srv/storage'' None 5 None one_csv)
     = Inr [[''a'', ''/srv/storage/a.csv'', ''csv'']]
   \<and> (\<exists>name e.
         [''a'', ''/srv/storage/a.csv'', ''csv'']
           = [name, path_join ''/srv/storage'' (name @ ''.'' @ e), e]
         \<and> (isabs ''/srv/storage'' \<longrightarrow> isabs (path_join ''/srv/storage'' (name @ ''.'' @ e)))
         \<and> (\<not> isabs ''/srv/storage'' \<and> \<not> isabs name
              \<longrightarrow> \<not> isabs (path_join ''/srv/storage'' (name @ ''.'' @ e))))"
proof -
  let ?run = "wait_download_file posix ''downloads'' ''csv'' ''/srv/storage'' None 5 None one_csv"
  have moved: "fst ?run = Inr [[''a'', ''/srv/storage/a.csv'', ''csv'']]"
    by code_simp
  have "[''a'', ''/srv/storage/a.csv'', ''csv''] \<in> set [[''a'', ''/srv/storage/a.csv'', ''csv'']]"
    by simp
  with result_paths_are_joined [OF outcome_parts [OF moved]]
  have "\<exists>name e.
         [''a'', ''/srv/storage/a.csv'', ''csv'']
           = [name, path_join ''/srv/storage'' (name @ ''.'' @ e), e]
         \<and> (isabs ''/srv/storage'' \<longrightarrow> isabs (path_join ''/srv/storage'' (name @ ''.'' @ e)))
         \<and> (\<not> isabs ''/srv/storage'' \<and> \<not> isabs name
              \<longrightarrow> \<not> isabs (path_join ''/srv/storage'' (name @ ''.'' @ e)))"
    by (rule bspec)
  with moved show ?thesis
    by (intro conjI)
qed

theorem relative_storage_relative_path:
  "fst (wait_download_file posix ''downloads'' ''csv'' ''storage'' None 5 None one_csv)
     = Inr [[''a'', ''storage/a.csv'', ''csv'']]
   \<and> \<not> isabs ''storage/a.csv''"
  by code_simp

text \<open>
  C8, as amended. For every extension \<open>e\<close> that is not empty, the call with \<open>.\<close> before
  \<open>e\<close> and the call with any \<open>e'\<close> that differs from \<open>e\<close> only in the case of its
  letters give the same outcome as the call with \<open>e\<close>: the same result or error, the same
  log, the same world. A file \<open>X.PDF\<close> passes the suffix test for the extension \<open>pdf\<close>
  and for \<open>.pdf\<close>.
\<close>

theorem extension_is_normalized:
  assumes "e \<noteq> []"
  shows "wait_download_file env folder_to_check (''.'' @ e) folder_storage replace_filename
           max_waiting_download logger w
         = wait_download_file env folder_to_check e folder_storage replace_filename
             max_waiting_download logger w
       \<and> (lower e' = lower e \<longrightarrow>
            wait_download_file env folder_to_check e' folder_storage replace_filename
              max_waiting_download logger w
            = wait_download_file env folder_to_check e folder_storage replace_filename
                max_waiting_download logger w)
       \<and> endswith (lower ''X.PDF'') (''.'' @ normalize_extension ''pdf'')
       \<and> endswith (lower ''X.PDF'') (''.'' @ normalize_extension ''.pdf'')"
proof (intro conjI impI)
  show "wait_download_file env folder_to_check (''.'' @ e) folder_storage replace_filename
           max_waiting_download logger w
         = wait_download_file env folder_to_check e folder_storage replace_filename
             max_waiting_download logger w"
  proof (rule same_extension_same_run)
    show "''.'' @ e \<noteq> []"
      by simp
    show "e \<noteq> []"
      by (rule assms)
    show "normalize_extension (''.'' @ e) = normalize_extension e"
      by (rule normalize_dot)
  qed
next
  assume same: "lower e' = lower e"
  then have "length (lower e') = length (lower e)"
    by simp
  with assms have "e' \<noteq> []"
    by (auto simp: lower_def)
  from this assms normalize_case [OF same]
  show "wait_download_file env folder_to_check e' folder_storage replace_filename
              max_waiting_download logger w
            = wait_download_file env folder_to_check e folder_storage replace_filename
                max_waiting_download logger w"
    by (rule same_extension_same_run)
next
  show "endswith (lower ''X.PDF'') (''.'' @ normalize_extension ''pdf'')"
    by code_simp
  show "endswith (lower ''X.PDF'') (''.'' @ normalize_extension ''.pdf'')"
    by code_simp
qed

theorem extension_is_normalized_witness:
  "''pdf'' \<noteq> []
   \<and> wait_download_file posix ''downloads'' (''.'' @ ''pdf'') ''storage'' None 5 None one_report
     = wait_download_file posix ''downloads'' ''pdf'' ''storage'' None 5 None one_report
   \<and> lower ''PdF'' = lower ''pdf''
   \<and> wait_download_file posix ''downloads'' ''PdF'' ''storage'' None 5 None one_report
     = wait_download_file posix ''downloads'' ''pdf'' ''storage'' None 5 None one_report"
proof -
  have h: "''pdf'' \<noteq> []"
    by simp
  have same: "lower ''PdF'' = lower ''pdf''"
    by code_simp
  note inst = extension_is_normalized [OF h, where env = posix and folder_to_check = "''downloads''"
      and folder_storage = "''storage''" and replace_filename = None and max_waiting_download = 5
      and logger = None and w = one_report and e' = "''PdF''"]
  from inst have dotted: "wait_download_file posix ''downloads'' (''.'' @ ''pdf'') ''storage'' None 5
      None one_report
     = wait_download_file posix ''downloads'' ''pdf'' ''storage'' None 5 None one_report"
    by (rule conjunct1)
  from inst have "lower ''PdF'' = lower ''pdf'' \<longrightarrow>
      wait_download_file posix ''downloads'' ''PdF'' ''storage'' None 5 None one_report
     = wait_download_file posix ''downloads'' ''pdf'' ''storage'' None 5 None one_report"
    by (rule conjunct1 [OF conjunct2])
  from mp [OF this same] h dotted same show ?thesis
    by (intro conjI)
qed

theorem empty_extension_differs_from_dot:
  "fst (wait_download_file posix ''downloads'' (''.'' @ []) ''storage'' None 1 None
          quiet_downloads)
     = Inl (TimeoutError ''Timeout waiting for download'')
   \<and> fst (wait_download_file posix ''downloads'' [] ''storage'' None 1 None quiet_downloads)
     = Inl (ValueError ''Extension cannot be empty'')"
  by code_simp

text \<open>
  C9. A fresh Logger gives a table with no rows and exactly the columns Date, Function,
  Message, IsError in that order. After one \<open>log\<close> call the table has exactly one row,
  with the function, the message and the error flag that were passed and a timestamp that
  is not null. A further call adds its row after the rows that were there, and the columns
  stay.
\<close>

theorem log_dataframe_rows:
  "get_log_dataframe Logger
     = \<lparr>columns = [''Date'', ''Function'', ''Message'', ''IsError''], rows = []\<rparr>
   \<and> get_log_dataframe (log now f m e Logger)
     = \<lparr>columns = [''Date'', ''Function'', ''Message'', ''IsError''],
        rows = [[Instant now, Str f, Str m, Bool e]]\<rparr>
   \<and> Instant now \<noteq> Null
   \<and> columns (get_log_dataframe (log now f m e lg))
     = [''Date'', ''Function'', ''Message'', ''IsError'']
   \<and> rows (get_log_dataframe (log now f m e lg))
     = rows (get_log_dataframe lg) @ [[Instant now, Str f, Str m, Bool e]]"
  by (simp add: get_log_dataframe_def Logger_def log_def row_of_def)

text \<open>
  C10. A name that the filter of a pass accepts splits at its last dot into exactly two
  parts, the second without a dot, so the unpacking of \<open>rsplit(".", 1)\<close> cannot fail: a
  pass over accepted names never ends in the \<open>ValueError\<close> of the unpacking. The name
  \<open>.pdf\<close> splits into an empty base name and \<open>pdf\<close>.
\<close>

theorem matched_name_unpacks:
  "(set files \<subseteq> set (matching env folder_to_check extension w names) \<longrightarrow>
      (\<forall>f \<in> set files. \<exists>name ext.
          rsplit1 CHR ''.'' (lower f) = [name, ext] \<and> lower f = name @ ''.'' @ ext
          \<and> CHR ''.'' \<notin> set ext)
      \<and> fst (process_files env' folder_to_check' folder_storage replace_filename files
               output_file logger w') \<noteq> Inl (ValueError m))
   \<and> rsplit1 CHR ''.'' (lower ''.pdf'') = [[], ''pdf'']"
proof (intro conjI impI ballI)
  fix f
  assume "set files \<subseteq> set (matching env folder_to_check extension w names)" and "f \<in> set files"
  then have "f \<in> set (matching env folder_to_check extension w names)"
    by (rule subsetD)
  then have "CHR ''.'' \<in> set (lower f)"
    by (rule matching_has_dot)
  then show "\<exists>name ext. rsplit1 CHR ''.'' (lower f) = [name, ext]
               \<and> lower f = name @ ''.'' @ ext \<and> CHR ''.'' \<notin> set ext"
    using rsplit1_two [of "CHR ''.''" "lower f"] by auto
next
  assume "set files \<subseteq> set (matching env folder_to_check extension w names)"
  then have "\<forall>f \<in> set files. CHR ''.'' \<in> set (lower f)"
    by (auto intro: matching_has_dot)
  then show "fst (process_files env' folder_to_check' folder_storage replace_filename files
                   output_file logger w') \<noteq> Inl (ValueError m)"
    by (rule process_files_no_unpack_error)
next
  show "rsplit1 CHR ''.'' (lower ''.pdf'') = [[], ''pdf'']"
    by code_simp
qed

theorem matched_name_unpacks_witness:
  "set [''.pdf''] \<subseteq> set (matching posix ''downloads'' ''pdf'' hidden_pdf [''.pdf'', ''notes''])
   \<and> (\<exists>name ext.
          rsplit1 CHR ''.'' (lower ''.pdf'') = [name, ext] \<and> lower ''.pdf'' = name @ ''.'' @ ext
          \<and> CHR ''.'' \<notin> set ext)
   \<and> fst (process_files posix ''downloads'' ''storage'' None [''.pdf''] [] None hidden_pdf)
       \<noteq> Inl (ValueError ''not enough values to unpack (expected 2, got 1)'')"
proof -
  have h: "set [''.pdf''] \<subseteq> set (matching posix ''downloads'' ''pdf'' hidden_pdf [''.pdf'', ''notes''])"
    by code_simp
  note unpacks = matched_name_unpacks [of "[''.pdf'']" posix "''downloads''" "''pdf''" hidden_pdf
      "[''.pdf'', ''notes'']" posix "''downloads''" "''storage''" None "[]" None hidden_pdf
      "''not enough values to unpack (expected 2, got 1)''"]
  from unpacks have "set [''.pdf''] \<subseteq> set (matching posix ''downloads'' ''pdf'' hidden_pdf [''.pdf'', ''notes''])
      \<longrightarrow> (\<forall>f \<in> set [''.pdf'']. \<exists>name ext.
          rsplit1 CHR ''.'' (lower f) = [name, ext] \<and> lower f = name @ ''.'' @ ext
          \<and> CHR ''.'' \<notin> set ext)
        \<and> fst (process_files posix ''downloads'' ''storage'' None [''.pdf''] [] None hidden_pdf)
            \<noteq> Inl (ValueError ''not enough values to unpack (expected 2, got 1)'')"
    by (rule conjunct1)
  from this h have both: "(\<forall>f \<in> set [''.pdf'']. \<exists>name ext.
          rsplit1 CHR ''.'' (lower f) = [name, ext] \<and> lower f = name @ ''.'' @ ext
          \<and> CHR ''.'' \<notin> set ext)
        \<and> fst (process_files posix ''downloads'' ''storage'' None [''.pdf''] [] None hidden_pdf)
            \<noteq> Inl (ValueError ''not enough values to unpack (expected 2, got 1)'')"
    by (rule mp)
  from both have every: "\<forall>f \<in> set [''.pdf'']. \<exists>name ext.
          rsplit1 CHR ''.'' (lower f) = [name, ext] \<and> lower f = name @ ''.'' @ ext
          \<and> CHR ''.'' \<notin> set ext"
    by (rule conjunct1)
  have "''.pdf'' \<in> set [''.pdf'']"
    by simp
  with every have one: "\<exists>name ext.
          rsplit1 CHR ''.'' (lower ''.pdf'') = [name, ext] \<and> lower ''.pdf'' = name @ ''.'' @ ext
          \<and> CHR ''.'' \<notin> set ext"
    by (rule bspec)
  from both have never: "fst (process_files posix ''downloads'' ''storage'' None [''.pdf''] [] None hidden_pdf)
            \<noteq> Inl (ValueError ''not enough values to unpack (expected 2, got 1)'')"
    by (rule conjunct2)
  from h one never show ?thesis
    by (intro conjI)
qed

end
